theory Spec2Isabelle
  imports Complex_Main "HOL-Library.AList"
begin

unbundle bit_operations_syntax

section \<open>Python strings\<close>

text \<open>
  Strings are character lists. The string methods the project calls are modelled on
  them: \<open>str.lower\<close> (on the ASCII letters; the needles searched for below are
  ASCII, and no non-ASCII character lowers to one of their letters), the substring
  test \<open>needle in s\<close>, and \<open>str.zfill\<close>.
\<close>

definition lower_char :: "char \<Rightarrow> char" where
  "lower_char c =
     (let n = (of_char c :: nat)
      in if 65 \<le> n \<and> n \<le> 90 then char_of (n + 32) else c)"

definition lower :: "string \<Rightarrow> string" where
  "lower s = map lower_char s"

fun startswith :: "string \<Rightarrow> string \<Rightarrow> bool" where
  "startswith s [] = True"
| "startswith [] (p # ps) = False"
| "startswith (c # cs) (p # ps) = (c = p \<and> startswith cs ps)"

text \<open>\<open>str_in needle s\<close> is Python's \<open>needle in s\<close>.\<close>

fun str_in :: "string \<Rightarrow> string \<Rightarrow> bool" where
  "str_in needle [] = (needle = [])"
| "str_in needle (c # cs) = (startswith (c # cs) needle \<or> str_in needle cs)"

section \<open>CVEQuantumSearch.create_feature_vector\<close>

text \<open>
  The feature vector is built by three appends: two bits for the vulnerability type,
  one for the attack vector, one for the privilege. The two \<open>print\<close> calls of the
  source write to the console and do not change the returned value.
\<close>

definition create_feature_vector :: "string \<Rightarrow> string \<Rightarrow> string \<Rightarrow> string" where
  "create_feature_vector description attack_vector privilege_required =
     (let feature_vector = '''';
          feature_vector = feature_vector @
            (if str_in ''buffer'' (lower description) then ''00''
             else if str_in ''sql'' (lower description) then ''01''
             else if str_in ''xss'' (lower description) then ''10''
             else ''11'');
          feature_vector = feature_vector @
            (if str_in ''remote'' (lower attack_vector) then ''0'' else ''1'');
          feature_vector = feature_vector @
            (if lower privilege_required = ''low'' then ''0'' else ''1'')
      in feature_vector)"

section \<open>Errors and circuits\<close>

text \<open>
  The exceptions the modelled code can raise: \<open>int(bit)\<close> on a character that is
  not a digit (\<open>ValueError\<close>), an index outside a register (\<open>IndexError\<close>) and
  \<open>np.sqrt\<close> on an integer that fits no 64-bit integer (\<open>TypeError\<close>).
  The project defines no exception class of its own and checks no configuration.
\<close>

datatype error = ValueError | IndexError | TypeError

text \<open>
  \<open>str.zfill(width)\<close>: zeros are inserted on the left up to \<open>width\<close> characters,
  after a leading sign if there is one; a string that is long enough is unchanged.
\<close>

definition zfill :: "nat \<Rightarrow> string \<Rightarrow> string" where
  "zfill width s =
     (let pad = replicate (width - length s) CHR ''0''
      in case s of
           [] \<Rightarrow> pad
         | c # cs \<Rightarrow> if c = CHR ''+'' \<or> c = CHR ''-'' then c # pad @ cs else pad @ s)"

text \<open>\<open>int(bit)\<close> for a one-character string.\<close>

definition int_of_bit :: "char \<Rightarrow> error + nat" where
  "int_of_bit c =
     (let n = (of_char c :: nat)
      in if 48 \<le> n \<and> n \<le> 57 then Inr (n - 48) else Inl ValueError)"

text \<open>The list comprehension \<open>[int(bit) for bit in s]\<close>; the first failure aborts it.\<close>

fun parse_pattern :: "string \<Rightarrow> error + nat list" where
  "parse_pattern [] = Inr []"
| "parse_pattern (c # cs) =
     (case int_of_bit c of
        Inl e \<Rightarrow> Inl e
      | Inr b \<Rightarrow> (case parse_pattern cs of Inl e \<Rightarrow> Inl e | Inr bs \<Rightarrow> Inr (b # bs)))"

text \<open>
  A circuit is the list of the operations appended to it. Qubits are numbered as the
  circuit's constructor lays the registers out: the search register \<open>q\<close> of size \<open>k\<close>
  holds the qubits \<open>0 .. k - 1\<close>, the ancilla register \<open>anc\<close> holds qubit \<open>k\<close>.
\<close>

datatype op =
    H nat
  | X nat
  | Z nat
  | CX nat nat
  | MCX "nat list" nat
  | RZ real nat
  | Barrier
  | Measure nat nat

text \<open>\<open>q[idx]\<close> on a register of \<open>k\<close> qubits.\<close>

definition qreg :: "nat \<Rightarrow> nat \<Rightarrow> error + nat" where
  "qreg k idx = (if idx < k then Inr idx else Inl IndexError)"

text \<open>\<open>q[-1]\<close> and \<open>q[:-1]\<close>.\<close>

definition qreg_last :: "nat \<Rightarrow> error + nat" where
  "qreg_last k = (if 0 < k then Inr (k - 1) else Inl IndexError)"

definition qreg_init :: "nat \<Rightarrow> nat list" where
  "qreg_init k = [0..<k - 1]"

section \<open>CVEQuantumSearch.create_oracle\<close>

text \<open>
  The loop \<open>for idx, bit in enumerate(pattern): if bit == 0: qc.x(q[idx])\<close>, started at
  index \<open>idx\<close>. The register is indexed only where the bit is 0.
\<close>

fun flip_zero_bits :: "nat \<Rightarrow> nat \<Rightarrow> nat list \<Rightarrow> error + op list" where
  "flip_zero_bits k idx [] = Inr []"
| "flip_zero_bits k idx (b # bits) =
     (if b = 0 then
        (case qreg k idx of
           Inl e \<Rightarrow> Inl e
         | Inr qb \<Rightarrow>
             (case flip_zero_bits k (Suc idx) bits of
                Inl e \<Rightarrow> Inl e
              | Inr ops \<Rightarrow> Inr (X qb # ops)))
      else flip_zero_bits k (Suc idx) bits)"

definition create_oracle :: "nat \<Rightarrow> string \<Rightarrow> error + op list" where
  "create_oracle num_qubits target_pattern =
     (case parse_pattern (zfill num_qubits target_pattern) of
        Inl e \<Rightarrow> Inl e
      | Inr pattern \<Rightarrow>
          (case flip_zero_bits num_qubits 0 pattern of
             Inl e \<Rightarrow> Inl e
           | Inr flips \<Rightarrow>
               (case flip_zero_bits num_qubits 0 pattern of
                  Inl e \<Rightarrow> Inl e
                | Inr unflips \<Rightarrow>
                    Inr (flips @ [MCX [0..<num_qubits] num_qubits] @ unflips))))"

section \<open>CVEQuantumSearch.run_grover_manual\<close>

text \<open>
  One pass of the loop body: the oracle, then the diffuser
  \<open>h(q); x(q); h(q[-1]); mcx(q[:-1], q[-1]); h(q[-1]); x(q); h(q)\<close>.
  A gate called on the whole register is one gate per qubit, in register order. What
  the circuit library does with a register of no qubits is not in the sources; the
  statements about circuits below are for at least one search qubit, or hold whatever
  it does.
\<close>

definition diffuser :: "nat \<Rightarrow> error + op list" where
  "diffuser k =
     (case qreg_last k of
        Inl e \<Rightarrow> Inl e
      | Inr t \<Rightarrow>
          Inr (map H [0..<k] @ map X [0..<k] @ [H t, MCX (qreg_init k) t, H t]
               @ map X [0..<k] @ map H [0..<k]))"

definition grover_iteration :: "nat \<Rightarrow> string \<Rightarrow> error + op list" where
  "grover_iteration k target_pattern =
     (case create_oracle k target_pattern of
        Inl e \<Rightarrow> Inl e
      | Inr oracle \<Rightarrow> (case diffuser k of Inl e \<Rightarrow> Inl e | Inr d \<Rightarrow> Inr (oracle @ d)))"

text \<open>\<open>for _ in range(iterations)\<close>: the oracle is rebuilt in every pass.\<close>

fun grover_loop :: "nat \<Rightarrow> string \<Rightarrow> nat \<Rightarrow> error + op list" where
  "grover_loop k target_pattern 0 = Inr []"
| "grover_loop k target_pattern (Suc n) =
     (case grover_iteration k target_pattern of
        Inl e \<Rightarrow> Inl e
      | Inr body \<Rightarrow>
          (case grover_loop k target_pattern n of
             Inl e \<Rightarrow> Inl e
           | Inr rest \<Rightarrow> Inr (body @ rest)))"

text \<open>
  The circuit \<open>run_grover_manual\<close> hands to the simulator: the gates, then the
  measurement of search qubit \<open>i\<close> into classical bit \<open>i\<close>.
\<close>

definition grover_gates :: "nat \<Rightarrow> string \<Rightarrow> nat \<Rightarrow> error + op list" where
  "grover_gates k target_pattern iterations =
     (case grover_loop k target_pattern iterations of
        Inl e \<Rightarrow> Inl e
      | Inr body \<Rightarrow> Inr ([X k, H k] @ map H [0..<k] @ body))"

definition run_grover_manual_circuit :: "nat \<Rightarrow> string \<Rightarrow> nat \<Rightarrow> error + op list" where
  "run_grover_manual_circuit k target_pattern iterations =
     (case grover_gates k target_pattern iterations of
        Inl e \<Rightarrow> Inl e
      | Inr gates \<Rightarrow> Inr (gates @ map (\<lambda>i. Measure i i) [0..<k]))"

section \<open>CVEQuantumSearch.run_classical_search\<close>

text \<open>
  \<open>format(i, '0{w}b')\<close>: the binary digits of \<open>i\<close>, most significant first, padded with
  zeros on the left to width \<open>w\<close>.
\<close>

fun bin_digits :: "nat \<Rightarrow> string" where
  "bin_digits i =
     (if i < 2 then [if i = 0 then CHR ''0'' else CHR ''1'']
      else bin_digits (i div 2) @ [if i mod 2 = 0 then CHR ''0'' else CHR ''1''])"

declare bin_digits.simps [simp del]

definition format_bin :: "nat \<Rightarrow> nat \<Rightarrow> string" where
  "format_bin w i = replicate (w - length (bin_digits i)) CHR ''0'' @ bin_digits i"

text \<open>
  A Python dictionary is an association list in insertion order: assigning to a new key
  appends it, assigning to an old key keeps its place (\<open>AList.update\<close>).
\<close>

type_synonym counts = "(string \<times> nat) list"

definition mock_db :: "nat \<Rightarrow> nat \<Rightarrow> string list" where
  "mock_db num_qubits database_size = map (format_bin num_qubits) [0..<database_size]"

text \<open>
  One pass of the scan loop: the entry's count is created at 1 or incremented. The
  sleep of one millisecond per entry changes no value.
\<close>

definition visit :: "string \<Rightarrow> counts \<Rightarrow> counts" where
  "visit entry matches =
     (case map_of matches entry of
        Some c \<Rightarrow> AList.update entry (c + 1) matches
      | None \<Rightarrow> AList.update entry 1 matches)"

definition scan :: "string list \<Rightarrow> counts" where
  "scan db = fold visit db []"

text \<open>The block after the loop, which the source labels as highlighting the target.\<close>

definition highlight :: "string \<Rightarrow> counts \<Rightarrow> counts" where
  "highlight target_pattern matches =
     (case map_of matches target_pattern of
        Some c \<Rightarrow> AList.update target_pattern (c * 4) matches
      | None \<Rightarrow> AList.update target_pattern 4 matches)"

text \<open>
  The two readings of the clock, before and after the loop, are inputs; the function
  returns the counts and the elapsed time.
\<close>

definition run_classical_search ::
  "nat \<Rightarrow> string \<Rightarrow> nat \<Rightarrow> real \<Rightarrow> real \<Rightarrow> counts \<times> real" where
  "run_classical_search num_qubits target_pattern database_size start_time end_time =
     (let matches = scan (mock_db num_qubits database_size);
          search_time = end_time - start_time
      in (highlight target_pattern matches, search_time))"

section \<open>CVEGuiApp.run_search\<close>

text \<open>
  \<open>np.round\<close> rounds to the nearest integer and a tie to the even one; \<open>int\<close> of the
  result is that integer. The arithmetic is over the reals.
\<close>

definition np_round :: "real \<Rightarrow> int" where
  "np_round x =
     (let f = \<lfloor>x\<rfloor>; d = x - of_int f
      in if d < 1 / 2 then f else if 1 / 2 < d then f + 1 else if even f then f else f + 1)"

text \<open>
  \<open>np.sqrt\<close> of a Python integer: an integer below \<open>2 ^ 64\<close> is converted to a
  64-bit integer and then to a float, whose root is taken; a larger one is kept as a
  Python object, for which the root is not defined, and the call raises \<open>TypeError\<close>.
\<close>

definition np_sqrt :: "nat \<Rightarrow> error + real" where
  "np_sqrt n = (if n < 2 ^ 64 then Inr (sqrt (real n)) else Inl TypeError)"

text \<open>
  Line 536: \<open>int(np.round(np.pi / 4 * np.sqrt(2 ** num_qubits)))\<close>. The power is a
  Python integer of any size; the root fails from 64 qubits on.
\<close>

definition grover_iterations :: "nat \<Rightarrow> error + int" where
  "grover_iterations num_qubits =
     (case np_sqrt (2 ^ num_qubits) of
        Inl e \<Rightarrow> Inl e
      | Inr r \<Rightarrow> Inr (np_round (pi / 4 * r)))"

text \<open>
  The quantum time shown to the user: the classical time scaled by \<open>sqrt N / N\<close> and by a
  variation \<open>0.9 + 0.2 * r\<close>, where \<open>r\<close> is the value \<open>np.random.random()\<close> returned.
  These lines run after the iteration count has been computed, hence with fewer than
  64 qubits, where the root is defined.
\<close>

definition quantum_time :: "real \<Rightarrow> nat \<Rightarrow> real \<Rightarrow> real" where
  "quantum_time classical_time num_qubits r =
     (let database_size = (2::real) ^ num_qubits;
          theoretical_factor = sqrt database_size / database_size;
          quantum_time = classical_time * theoretical_factor;
          variation = 9 / 10 + 2 / 10 * r
      in quantum_time * variation)"

text \<open>\<open>max(quantum_counts.values())\<close> on a dictionary that is not empty.\<close>

definition max_value :: "counts \<Rightarrow> nat" where
  "max_value cs = fold max (map snd cs) 0"

text \<open>
  The counts shown to the user, from the counts \<open>run_grover_manual\<close> returned: the
  target's bin is added when missing and set to ten times the highest count.
\<close>

definition shown_counts :: "string \<Rightarrow> counts \<Rightarrow> counts" where
  "shown_counts feature_vector quantum_counts =
     (let highest_count = (if quantum_counts \<noteq> [] then max_value quantum_counts else 1024);
          quantum_counts =
            (if map_of quantum_counts feature_vector = None
             then AList.update feature_vector 0 quantum_counts else quantum_counts)
      in AList.update feature_vector (highest_count * 10) quantum_counts)"

section \<open>Lab 5: multiple_rz_gates\<close>

text \<open>The circuit on two qubits and two classical bits that the function returns.\<close>

definition multiple_rz_gates :: "op list" where
  "multiple_rz_gates = [H 0, RZ (pi / 2) 0, RZ (pi / 3) 0, H 0, Measure 0 0]"

section \<open>Lab 6: bell_state_phi_plus\<close>

text \<open>
  The circuit on two qubits and two classical bits: \<open>h(0); cx(0, 1)\<close> and the
  measurement of qubits 0 and 1 into classical bits 0 and 1.
\<close>

definition bell_state_phi_plus :: "op list" where
  "bell_state_phi_plus = [H 0, CX 0 1, Measure 0 0, Measure 1 1]"

section \<open>State vectors and gates\<close>

text \<open>
  Modelled from the spec: the state-vector simulator and its gate library. The
  repository calls them through the circuit library and the Aer simulator, whose code
  is not among the sources; the definitions below follow sections 3, 4.1 and 4.2 of
  the specification, over exact complex numbers.

  A state vector for \<open>n\<close> qubits is the list of its \<open>2 ^ n\<close> amplitudes; bit \<open>i\<close> of an
  index is the value of qubit \<open>i\<close>. The run starts in the basis state of index 0.
\<close>

type_synonym state = "complex list"

definition init_state :: "nat \<Rightarrow> state" where
  "init_state n = map (\<lambda>j. if j = 0 then 1 else 0) [0..<2 ^ n]"

text \<open>
  Hadamard on qubit \<open>i\<close>: a pair of amplitudes \<open>(a0, a1)\<close> at indices that differ in bit
  \<open>i\<close> only becomes \<open>((a0 + a1) / sqrt 2, (a0 - a1) / sqrt 2)\<close>.
\<close>

definition hadamard :: "nat \<Rightarrow> state \<Rightarrow> state" where
  "hadamard i v =
     map (\<lambda>j. if bit j i then (v ! unset_bit i j - v ! j) / complex_of_real (sqrt 2)
               else (v ! j + v ! set_bit i j) / complex_of_real (sqrt 2))
         [0..<length v]"

text \<open>Pauli X on qubit \<open>i\<close> swaps the amplitudes of indices that differ in bit \<open>i\<close> only.\<close>

definition pauli_x :: "nat \<Rightarrow> state \<Rightarrow> state" where
  "pauli_x i v = map (\<lambda>j. v ! flip_bit i j) [0..<length v]"

text \<open>Pauli Z on qubit \<open>i\<close> negates the amplitude of every index whose bit \<open>i\<close> is 1.\<close>

definition pauli_z :: "nat \<Rightarrow> state \<Rightarrow> state" where
  "pauli_z i v = map (\<lambda>j. if bit j i then - (v ! j) else v ! j) [0..<length v]"

text \<open>
  Multi-controlled X: where all control bits are 1 the amplitude is swapped with that of
  the index with the target bit flipped; other indices are unchanged. With no control it
  is Pauli X, with one control it is the controlled X.
\<close>

definition multi_controlled_x :: "nat list \<Rightarrow> nat \<Rightarrow> state \<Rightarrow> state" where
  "multi_controlled_x controls t v =
     map (\<lambda>j. if list_all (bit j) controls then v ! flip_bit t j else v ! j) [0..<length v]"

definition controlled_x :: "nat \<Rightarrow> nat \<Rightarrow> state \<Rightarrow> state" where
  "controlled_x c t v = multi_controlled_x [c] t v"

text \<open>
  Z rotation by \<open>\<theta>\<close> on qubit \<open>i\<close>: the amplitude is multiplied by \<open>exp (- i \<theta> / 2)\<close> where
  the bit is 0 and by \<open>exp (i \<theta> / 2)\<close> where it is 1.
\<close>

definition rotation_z :: "real \<Rightarrow> nat \<Rightarrow> state \<Rightarrow> state" where
  "rotation_z \<theta> i v =
     map (\<lambda>j. (if bit j i then cis (\<theta> / 2) else cis (- \<theta> / 2)) * v ! j) [0..<length v]"

text \<open>
  A barrier changes no amplitude. Every circuit of the repository measures at its end,
  so a measurement leaves the state vector as it is and only selects what is read out.
\<close>

fun apply_op :: "op \<Rightarrow> state \<Rightarrow> state" where
  "apply_op (H i) v = hadamard i v"
| "apply_op (X i) v = pauli_x i v"
| "apply_op (Z i) v = pauli_z i v"
| "apply_op (CX c t) v = controlled_x c t v"
| "apply_op (MCX cs t) v = multi_controlled_x cs t v"
| "apply_op (RZ \<theta> i) v = rotation_z \<theta> i v"
| "apply_op Barrier v = v"
| "apply_op (Measure q c) v = v"

definition run_ops :: "op list \<Rightarrow> state \<Rightarrow> state" where
  "run_ops ops v = fold apply_op ops v"

text \<open>
  An operation is well formed for \<open>n\<close> qubits when its qubit indices are below \<open>n\<close> and
  the target of a controlled gate is not among its controls.
\<close>

fun valid_op :: "nat \<Rightarrow> op \<Rightarrow> bool" where
  "valid_op n (H i) = (i < n)"
| "valid_op n (X i) = (i < n)"
| "valid_op n (Z i) = (i < n)"
| "valid_op n (CX c t) = (c < n \<and> t < n \<and> c \<noteq> t)"
| "valid_op n (MCX cs t) = (list_all (\<lambda>c. c < n \<and> c \<noteq> t) cs \<and> t < n)"
| "valid_op n (RZ \<theta> i) = (i < n)"
| "valid_op n Barrier = True"
| "valid_op n (Measure q c) = (q < n)"

text \<open>
  The simulator validates the whole circuit before it applies a gate, then replays the
  operations in order on the initial state.
\<close>

definition simulate :: "nat \<Rightarrow> op list \<Rightarrow> error + state" where
  "simulate n ops =
     (if list_all (valid_op n) ops then Inr (run_ops ops (init_state n)) else Inl IndexError)"

text \<open>The sum of the squared magnitudes of the amplitudes.\<close>

definition norm2 :: "state \<Rightarrow> real" where
  "norm2 v = sum_list (map (\<lambda>a. (cmod a)\<^sup>2) v)"

text \<open>
  The value of classical bit \<open>c\<close> when the basis state \<open>j\<close> is measured: the bit of the
  qubit last measured into \<open>c\<close>, and 0 when no qubit is. The bitstring of \<open>m\<close> classical
  bits is written most significant bit first.
\<close>

definition clbit :: "op list \<Rightarrow> nat \<Rightarrow> nat \<Rightarrow> bool" where
  "clbit ops j c =
     fold (\<lambda>op b. case op of Measure q c' \<Rightarrow> if c' = c then bit j q else b | _ \<Rightarrow> b)
       ops False"

definition readout :: "nat \<Rightarrow> op list \<Rightarrow> nat \<Rightarrow> string" where
  "readout m ops j = map (\<lambda>c. if clbit ops j c then CHR ''1'' else CHR ''0'') (rev [0..<m])"

text \<open>
  The probability of reading the bitstring \<open>s\<close>: the sum of the probabilities of the
  basis states that are read as \<open>s\<close>. Each shot draws one bitstring with this
  probability.
\<close>

definition outcome_prob :: "nat \<Rightarrow> op list \<Rightarrow> state \<Rightarrow> string \<Rightarrow> real" where
  "outcome_prob m ops v s =
     sum_list (map (\<lambda>j. if readout m ops j = s then (cmod (v ! j))\<^sup>2 else 0) [0..<length v])"

section \<open>Auxiliary notions for the statements\<close>

text \<open>A bitstring: every character is \<open>0\<close> or \<open>1\<close>.\<close>

definition binary :: "string \<Rightarrow> bool" where
  "binary s = (set s \<subseteq> {CHR ''0'', CHR ''1''})"

text \<open>The number a bitstring denotes, most significant digit first (Python's \<open>int(s, 2)\<close>).\<close>

definition bin_value :: "string \<Rightarrow> nat" where
  "bin_value s = foldl (\<lambda>a c. 2 * a + (if c = CHR ''1'' then 1 else 0)) 0 s"

text \<open>The state vector with every index replaced by its bitwise exclusive or with \<open>m\<close>.\<close>

definition permute_xor :: "nat \<Rightarrow> state \<Rightarrow> state" where
  "permute_xor m v = map (\<lambda>j. v ! (j XOR m)) [0..<length v]"

text \<open>
  A circuit without Z rotations maps a state vector with integer entries, scaled by a
  common factor, to one of the same kind: only a Hadamard changes the factor, dividing
  it by \<open>sqrt 2\<close>. The integer entries are computed by the functions below, which
  follow the gates above without the division; \<open>embed\<close> gives the state vector back.
\<close>

definition hadamard_int :: "nat \<Rightarrow> int list \<Rightarrow> int list" where
  "hadamard_int i w =
     map (\<lambda>j. if bit j i then w ! unset_bit i j - w ! j else w ! j + w ! set_bit i j)
         [0..<length w]"

definition permute_int :: "(nat \<Rightarrow> nat) \<Rightarrow> int list \<Rightarrow> int list" where
  "permute_int p w = map (\<lambda>j. w ! p j) [0..<length w]"

fun apply_int :: "op \<Rightarrow> int list \<Rightarrow> int list" where
  "apply_int (H i) w = hadamard_int i w"
| "apply_int (X i) w = permute_int (flip_bit i) w"
| "apply_int (Z i) w = map (\<lambda>j. if bit j i then - (w ! j) else w ! j) [0..<length w]"
| "apply_int (CX c t) w = permute_int (\<lambda>j. if list_all (bit j) [c] then flip_bit t j else j) w"
| "apply_int (MCX cs t) w =
     permute_int (\<lambda>j. if list_all (bit j) cs then flip_bit t j else j) w"
| "apply_int op w = w"

definition run_int :: "op list \<Rightarrow> int list \<Rightarrow> int list" where
  "run_int ops w = fold apply_int ops w"

definition init_int :: "nat \<Rightarrow> int list" where
  "init_int n = map (\<lambda>j. if j = 0 then 1 else 0) [0..<2 ^ n]"

definition embed :: "complex \<Rightarrow> int list \<Rightarrow> state" where
  "embed c w = map (\<lambda>z. c * of_int z) w"

fun exact_op :: "op \<Rightarrow> bool" where
  "exact_op (RZ \<theta> i) = False"
| "exact_op op = True"

fun hadamards :: "op list \<Rightarrow> nat" where
  "hadamards [] = 0"
| "hadamards (H i # ops) = Suc (hadamards ops)"
| "hadamards (op # ops) = hadamards ops"

definition outcome_weight :: "nat \<Rightarrow> op list \<Rightarrow> int list \<Rightarrow> string \<Rightarrow> int" where
  "outcome_weight m ops w s =
     sum_list (map (\<lambda>j. if readout m ops j = s then (w ! j)\<^sup>2 else 0) [0..<length w])"

section \<open>Properties of the feature encoding\<close>

text \<open>
  Claim C10. For every triple of strings, \<open>create_feature_vector\<close> returns a string of
  exactly four characters, each of them \<open>0\<close> or \<open>1\<close>. The function is a total HOL
  function of its three arguments, so it returns for every input and equal inputs give
  equal outputs; the last conjunct states that determinism explicitly.
\<close>

theorem create_feature_vector_shape:
  "length (create_feature_vector d a p) = 4
   \<and> set (create_feature_vector d a p) \<subseteq> {CHR ''0'', CHR ''1''}
   \<and> (d = d' \<and> a = a' \<and> p = p' \<longrightarrow>
        create_feature_vector d a p = create_feature_vector d' a' p')"
  by (simp add: create_feature_vector_def)

theorem create_feature_vector_shape_witness:
  "create_feature_vector ''XSS vulnerability'' ''Local'' ''high'' = ''1011''
   \<and> length (create_feature_vector ''XSS vulnerability'' ''Local'' ''high'') = 4
   \<and> set (create_feature_vector ''XSS vulnerability'' ''Local'' ''high'')
        \<subseteq> {CHR ''0'', CHR ''1''}"
proof -
  have run: "create_feature_vector ''XSS vulnerability'' ''Local'' ''high'' = ''1011''"
    by code_simp
  show ?thesis
    using create_feature_vector_shape [of "''XSS vulnerability''" "''Local''" "''high''"] run
    by simp
qed

section \<open>Properties of the oracle construction\<close>

lemma zfill_binary: "binary p \<Longrightarrow> zfill k p = replicate (k - length p) CHR ''0'' @ p"
  by (cases p) (auto simp: zfill_def binary_def)

lemma int_of_bit_binary: "int_of_bit CHR ''0'' = Inr 0" "int_of_bit CHR ''1'' = Inr 1"
  by (simp_all add: int_of_bit_def)

lemma parse_pattern_binary:
  "binary p \<Longrightarrow> parse_pattern p = Inr (map (\<lambda>c. if c = CHR ''0'' then 0 else 1) p)"
  by (induction p) (auto simp: binary_def int_of_bit_binary)

lemma flip_zero_bits_ok:
  "idx + length bits \<le> k \<Longrightarrow>
   flip_zero_bits k idx bits =
     Inr (map (\<lambda>(i, b). X i) (filter (\<lambda>(i, b). b = 0) (List.enumerate idx bits)))"
  by (induction bits arbitrary: idx) (auto simp: qreg_def)

lemma flips_of_chars:
  "map (\<lambda>(i, b). X i) (filter (\<lambda>(i, b). b = (0::nat))
      (List.enumerate n (map (\<lambda>c. if c = CHR ''0'' then 0 else 1) s)))
   = map (\<lambda>(i, c). X i) (filter (\<lambda>(i, c). c = CHR ''0'') (List.enumerate n s))"
  by (induction s arbitrary: n) auto

lemma create_oracle_binary:
  assumes "binary p" "length p \<le> k"
  shows "create_oracle k p =
     (let padded = replicate (k - length p) CHR ''0'' @ p;
          flips = map (\<lambda>(i, c). X i)
                    (filter (\<lambda>(i, c). c = CHR ''0'') (List.enumerate 0 padded))
      in Inr (flips @ [MCX [0..<k] k] @ flips))"
proof -
  let ?padded = "replicate (k - length p) CHR ''0'' @ p"
  let ?bits = "map (\<lambda>c. if c = CHR ''0'' then 0 else 1) ?padded"
  have b: "binary ?padded" using assms by (auto simp: binary_def)
  have len: "0 + length ?bits \<le> k" using assms by simp
  have pp: "parse_pattern (zfill k p) = Inr ?bits"
    using assms b by (simp only: zfill_binary parse_pattern_binary)
  have fz: "flip_zero_bits k 0 ?bits
          = Inr (map (\<lambda>(i, c). X i)
                  (filter (\<lambda>(i, c). c = CHR ''0'') (List.enumerate 0 ?padded)))"
    by (simp only: flip_zero_bits_ok [OF len] flips_of_chars)
  show ?thesis
    unfolding create_oracle_def pp by (simp only: fz Let_def sum.case)
qed

text \<open>
  Claim C8 as stated (construction fails whenever the pattern's length differs from
  the number of search qubits) does not hold: with four search qubits the one-character
  pattern \<open>1\<close> is padded to \<open>0001\<close> and its oracle is built.
\<close>

theorem create_oracle_short_pattern_counterexample:
  "create_oracle 4 ''1'' = Inr [X 0, X 1, X 2, MCX [0, 1, 2, 3] 4, X 0, X 1, X 2]"
  by code_simp

text \<open>
  Claim C8, amended. \<open>create_oracle\<close> checks no length. For every bitstring that is at
  most as long as the search register (of at least one qubit), it succeeds and builds the oracle of the pattern
  padded with zeros on the left: an \<open>X\<close> on every position whose padded bit is \<open>0\<close>, the
  multi-controlled \<open>X\<close> from all search qubits to the ancilla, and the same \<open>X\<close> gates
  again.
\<close>

theorem create_oracle_pads_short_pattern:
  "0 < k \<Longrightarrow> binary p \<Longrightarrow> length p \<le> k \<Longrightarrow>
   create_oracle k p =
     (let padded = replicate (k - length p) CHR ''0'' @ p;
          flips = map (\<lambda>(i, c). X i)
                    (filter (\<lambda>(i, c). c = CHR ''0'') (List.enumerate 0 padded))
      in Inr (flips @ [MCX [0..<k] k] @ flips))"
  by (rule create_oracle_binary)

theorem create_oracle_pads_short_pattern_witness:
  "(0::nat) < 3 \<and> binary ''10'' \<and> length ''10'' \<le> (3::nat) \<and>
   create_oracle 3 ''10'' = Inr [X 0, X 2, MCX [0, 1, 2] 3, X 0, X 2]"
proof -
  have b: "binary ''10''" by (simp add: binary_def)
  have l: "length ''10'' \<le> (3::nat)" by simp
  have "create_oracle 3 ''10'' = Inr [X 0, X 2, MCX [0, 1, 2] 3, X 0, X 2]"
    using create_oracle_pads_short_pattern [OF _ b l]
    by (simp add: Let_def enumerate_eq_zip upt_conv_Cons numeral_eq_Suc)
  with b l show ?thesis by simp
qed

section \<open>A search register without qubits\<close>

lemma grover_iteration_no_qubits: "\<exists>e. grover_iteration 0 t = Inl e"
  by (cases "create_oracle 0 t") (simp_all add: grover_iteration_def diffuser_def qreg_last_def)

text \<open>
  With no search qubit and at least one iteration, building the circuit of
  \<open>run_grover_manual\<close> fails: at the latest \<open>q[-1]\<close> indexes the empty register. The
  failure is the pattern's or the register's, no check of the qubit count raises it,
  and no circuit reaches the simulator.
\<close>

theorem run_grover_manual_no_qubits:
  "\<exists>e. run_grover_manual_circuit 0 t (Suc n) = Inl e"
proof -
  obtain e where "grover_iteration 0 t = Inl e"
    using grover_iteration_no_qubits by blast
  then have "run_grover_manual_circuit 0 t (Suc n) = Inl e"
    by (simp add: run_grover_manual_circuit_def grover_gates_def)
  then show ?thesis ..
qed

section \<open>Properties of the classical scan\<close>

lemma bin_value_snoc:
  "bin_value (s @ [c]) = 2 * bin_value s + (if c = CHR ''1'' then 1 else 0)"
  by (simp add: bin_value_def)

lemma bin_value_digits: "bin_value (bin_digits i) = i"
proof (induction i rule: bin_digits.induct)
  case (1 i)
  show ?case
  proof (cases "i < 2")
    case True
    then show ?thesis by (subst bin_digits.simps) (auto simp: bin_value_def)
  next
    case False
    have "bin_value (bin_digits (i div 2)) = i div 2" using 1 False by simp
    then have "bin_value (bin_digits i) = 2 * (i div 2) + (if i mod 2 = 0 then 0 else 1)"
      using False by (subst bin_digits.simps) (simp add: bin_value_snoc)
    also have "\<dots> = i" by presburger
    finally show ?thesis .
  qed
qed

lemma bin_value_pad: "bin_value (replicate m CHR ''0'' @ s) = bin_value s"
proof -
  have "foldl (\<lambda>a c. 2 * a + (if c = CHR ''1'' then 1 else 0)) 0 (replicate m CHR ''0'')
        = (0::nat)"
    by (induction m) simp_all
  then show ?thesis by (simp add: bin_value_def)
qed

lemma bin_value_format: "bin_value (format_bin w i) = i"
  by (simp add: format_bin_def bin_value_pad bin_value_digits)

lemma distinct_mock_db: "distinct (mock_db w n)"
  unfolding mock_db_def by (simp add: distinct_map inj_on_def) (metis bin_value_format)

lemma update_fresh: "k \<notin> fst ` set al \<Longrightarrow> AList.update k v al = al @ [(k, v)]"
  by (induction al) auto

lemma fold_visit_distinct:
  "distinct db \<Longrightarrow> set db \<inter> fst ` set acc = {} \<Longrightarrow>
   fold visit db acc = acc @ map (\<lambda>e. (e, 1)) db"
proof (induction db arbitrary: acc)
  case Nil
  then show ?case by simp
next
  case (Cons e db)
  have fresh: "e \<notin> fst ` set acc" using Cons.prems by auto
  then have none: "map_of acc e = None" by (simp add: map_of_eq_None_iff)
  have v: "visit e acc = acc @ [(e, 1)]"
    by (simp add: visit_def none update_fresh [OF fresh])
  have "fold visit db (acc @ [(e, 1)]) = (acc @ [(e, 1)]) @ map (\<lambda>e. (e, 1)) db"
    using Cons.prems by (intro Cons.IH) auto
  then show ?case by (simp add: v)
qed

lemma scan_distinct: "distinct db \<Longrightarrow> scan db = map (\<lambda>e. (e, 1)) db"
  using fold_visit_distinct [of db "[]"] by (simp add: scan_def)

lemma update_map_const:
  "distinct db \<Longrightarrow> AList.update t v (map (\<lambda>e. (e, c)) db) =
     (if t \<in> set db then map (\<lambda>e. (e, if e = t then v else c)) db
      else map (\<lambda>e. (e, c)) db @ [(t, v)])"
  by (induction db) auto

lemma map_of_map_const:
  "map_of (map (\<lambda>e. (e, c)) db) t = (if t \<in> set db then Some c else None)"
  by (induction db) auto

lemma highlight_scan:
  "distinct db \<Longrightarrow> highlight t (map (\<lambda>e. (e, 1)) db) =
     (if t \<in> set db then map (\<lambda>e. (e, if e = t then 4 else 1)) db
      else map (\<lambda>e. (e, 1)) db @ [(t, 4)])"
  by (simp add: highlight_def map_of_map_const update_map_const)

text \<open>
  Claim C6 as stated (every entry, the target included, is returned with the count 1)
  does not hold: with four qubits and sixteen entries the target \<open>1011\<close> is returned with
  the count 4.
\<close>

theorem run_classical_search_target_counterexample:
  "map_of (fst (run_classical_search 4 ''1011'' 16 0 (16 / 1000))) ''1011'' = Some 4"
  by code_simp

text \<open>
  Claim C6, amended. For every target pattern, register width and database size, the
  returned dictionary lists the database entries once each, in the order of the scan;
  every entry other than the target has the count 1 and the target has the count 4 (the
  target is appended with the count 4 when it is not an entry). The returned time is the
  difference of the two clock readings.
\<close>

theorem run_classical_search_counts:
  "run_classical_search k t n t0 t1 =
     (map (\<lambda>e. (e, if e = t then 4 else 1)) (mock_db k n)
        @ (if t \<in> set (mock_db k n) then [] else [(t, 4)]),
      t1 - t0)"
proof -
  let ?db = "mock_db k n"
  have d: "distinct ?db" by (rule distinct_mock_db)
  have s: "scan ?db = map (\<lambda>e. (e, 1)) ?db" by (rule scan_distinct [OF d])
  have m: "t \<notin> set ?db \<Longrightarrow>
      map (\<lambda>e. (e, 1::nat)) ?db = map (\<lambda>e. (e, if e = t then 4 else 1)) ?db"
    by (rule map_cong) auto
  have h: "highlight t (scan ?db) =
      map (\<lambda>e. (e, if e = t then 4 else 1)) ?db @ (if t \<in> set ?db then [] else [(t, 4)])"
    unfolding s highlight_scan [OF d] using m by (cases "t \<in> set ?db") simp_all
  show ?thesis
    unfolding run_classical_search_def Let_def h ..
qed

theorem run_classical_search_counts_witness:
  "run_classical_search 2 ''10'' 4 1 3 =
     ([(''00'', 1), (''01'', 1), (''10'', 4), (''11'', 1)], 2)"
proof -
  have db: "mock_db 2 4 = [''00'', ''01'', ''10'', ''11'']" by code_simp
  show ?thesis
    using run_classical_search_counts [of 2 "''10''" 4 1 3] by (simp add: db)
qed

section \<open>Properties of the search comparison\<close>

lemma shown_counts_target:
  "map_of (shown_counts fv qc) fv = Some ((if qc \<noteq> [] then max_value qc else 1024) * 10)"
  by (simp add: shown_counts_def Let_def update_conv')

lemma shown_counts_other:
  "key \<noteq> fv \<Longrightarrow> map_of (shown_counts fv qc) key = map_of qc key"
  by (simp add: shown_counts_def Let_def update_conv')

lemma quantum_time_eq:
  "quantum_time ct k r = ct / sqrt (2 ^ k) * (9 / 10 + r / 5)"
proof -
  have h: "sqrt ((2::real) ^ k) / 2 ^ k = 1 / sqrt (2 ^ k)"
    using real_div_sqrt [of "2 ^ k"] by (simp add: field_simps)
  have "quantum_time ct k r = ct * (sqrt (2 ^ k) / 2 ^ k) * (9 / 10 + r / 5)"
    by (simp add: quantum_time_def Let_def)
  also have "\<dots> = ct * (1 / sqrt (2 ^ k)) * (9 / 10 + r / 5)" by (simp only: h)
  finally show ?thesis by simp
qed

lemma quantum_time_bounds:
  assumes "0 \<le> ct" "0 \<le> r" "r < 1"
  shows "9 / 10 * (ct / sqrt (2 ^ k)) \<le> quantum_time ct k r"
    and "quantum_time ct k r \<le> 11 / 10 * (ct / sqrt (2 ^ k))"
proof -
  have nn: "0 \<le> ct / sqrt (2 ^ k)" using assms by simp
  have "9 / 10 \<le> 9 / 10 + r / 5" using assms by simp
  then have "ct / sqrt (2 ^ k) * (9 / 10) \<le> ct / sqrt (2 ^ k) * (9 / 10 + r / 5)"
    using nn by (rule mult_left_mono)
  then show "9 / 10 * (ct / sqrt (2 ^ k)) \<le> quantum_time ct k r"
    unfolding quantum_time_eq by (simp add: mult.commute)
  have "9 / 10 + r / 5 \<le> 11 / 10" using assms by simp
  then have "ct / sqrt (2 ^ k) * (9 / 10 + r / 5) \<le> ct / sqrt (2 ^ k) * (11 / 10)"
    using nn by (rule mult_left_mono)
  then show "quantum_time ct k r \<le> 11 / 10 * (ct / sqrt (2 ^ k))"
    unfolding quantum_time_eq by (simp add: mult.commute)
qed

lemma sqrt_16: "sqrt (2 ^ 4) = (4::real)"
  using real_sqrt_abs [of 4] by simp

text \<open>
  Claim C3 as stated (the counts shown are the counts drawn, and the quantum time is
  measured) does not hold. When the simulator returns 985 shots of \<open>1101\<close> and 39 of
  \<open>0101\<close> for the target \<open>1011\<close>, the counts shown hold a bin \<open>1011\<close> of 9850 that was
  never drawn; and for a classical time of 16 ms and the random draw 1/2 the quantum
  time shown is 4 ms whatever the simulation took.
\<close>

theorem run_search_counts_counterexample:
  "shown_counts ''1011'' [(''1101'', 985), (''0101'', 39)]
     = [(''1101'', 985), (''0101'', 39), (''1011'', 9850)]
   \<and> quantum_time (16 / 1000) 4 (1 / 2) = 4 / 1000"
proof -
  have "shown_counts ''1011'' [(''1101'', 985), (''0101'', 39)]
     = [(''1101'', 985), (''0101'', 39), (''1011'', 9850)]"
    by code_simp
  moreover have "quantum_time (16 / 1000) 4 (1 / 2) = 4 / 1000"
    by (simp add: quantum_time_eq sqrt_16)
  ultimately show ?thesis by simp
qed

text \<open>
  Claim C3, amended. The counts shown after a search give the target pattern ten times
  the highest count the simulator returned (ten times 1024 when it returned none) and
  every other bitstring the count the simulator returned. The quantum time shown is the
  classical scan's time divided by \<open>sqrt N\<close> and scaled by \<open>0.9 + 0.2 r\<close> for the
  random draw \<open>r\<close> in \<open>[0, 1)\<close>: it lies between 0.9 and 1.1 times the classical time
  over \<open>sqrt N\<close>, and no clock is read around the simulation.
\<close>

theorem run_search_shown_values:
  "map_of (shown_counts fv qc) fv = Some ((if qc \<noteq> [] then max_value qc else 1024) * 10)
   \<and> (key \<noteq> fv \<longrightarrow> map_of (shown_counts fv qc) key = map_of qc key)
   \<and> quantum_time ct k r = ct / sqrt (2 ^ k) * (9 / 10 + r / 5)
   \<and> (0 \<le> ct \<and> 0 \<le> r \<and> r < 1 \<longrightarrow>
        9 / 10 * (ct / sqrt (2 ^ k)) \<le> quantum_time ct k r
        \<and> quantum_time ct k r \<le> 11 / 10 * (ct / sqrt (2 ^ k)))"
  using shown_counts_target shown_counts_other quantum_time_eq quantum_time_bounds
  by blast

theorem run_search_shown_values_witness:
  "''1101'' \<noteq> ''1011'' \<and> (0::real) \<le> 2 \<and> (0::real) \<le> 1 / 2 \<and> (1 / 2 :: real) < 1
   \<and> map_of (shown_counts ''1011'' [(''1101'', 985), (''1011'', 39)]) ''1011'' = Some 9850
   \<and> map_of (shown_counts ''1011'' [(''1101'', 985), (''1011'', 39)]) ''1101'' = Some 985
   \<and> quantum_time 2 4 (1 / 2) = 1 / 2
   \<and> 9 / 10 * (2 / sqrt (2 ^ 4)) \<le> quantum_time 2 4 (1 / 2)
   \<and> quantum_time 2 4 (1 / 2) \<le> 11 / 10 * (2 / sqrt (2 ^ 4))"
proof -
  have m: "max_value [(''1101'', 985), (''1011'', 39)] = 985" by code_simp
  show ?thesis
    using run_search_shown_values
      [of "''1011''" "[(''1101'', 985), (''1011'', 39)]" "''1101''" 2 4 "1 / 2"]
    by (simp add: m sqrt_16)
qed

section \<open>Properties of the iteration count\<close>

lemma np_round_near: "\<bar>of_int (np_round x) - x\<bar> \<le> 1 / 2"
proof -
  have "of_int \<lfloor>x\<rfloor> \<le> x" "x < of_int \<lfloor>x\<rfloor> + 1" by linarith+
  then show ?thesis unfolding np_round_def Let_def by (simp add: abs_le_iff)
qed

lemma pi_ge_3: "3 \<le> pi"
  using sin_x_le_x [of "pi / 6"] by (simp add: sin_30)

lemma pi_less_7_2: "pi < 7 / 2"
proof (rule ccontr)
  assume "\<not> pi < 7 / 2"
  define x where "x = pi / 6"
  have lo: "7 / 12 \<le> x" using \<open>\<not> pi < 7 / 2\<close> by (simp add: x_def)
  have hi: "x \<le> 2 / 3" using pi_less_4 by (simp add: x_def)
  have x0: "0 \<le> x" using lo by simp
  have b: "\<bar>sin x - (\<Sum>m<4. sin_coeff m * x ^ m)\<bar> \<le> inverse (fact 4) * \<bar>x\<bar> ^ 4"
    by (rule Maclaurin_sin_bound)
  have c: "sin_coeff 0 = 0" "sin_coeff (Suc 0) = 1" "sin_coeff 2 = 0" "sin_coeff 3 = - 1 / 6"
    by (simp_all add: sin_coeff_def fact_numeral)
  have "(\<Sum>m<4. sin_coeff m * x ^ m)
      = sin_coeff 0 * x ^ 0 + sin_coeff 1 * x ^ 1 + sin_coeff 2 * x ^ 2 + sin_coeff 3 * x ^ 3"
    by (simp add: numeral_eq_Suc)
  then have s: "(\<Sum>m<4. sin_coeff m * x ^ m) = x - x ^ 3 / 6"
    by (simp add: c)
  have p3: "x ^ 3 \<le> (2 / 3) ^ 3" using x0 hi by (simp add: power_mono)
  have p4: "\<bar>x\<bar> ^ 4 \<le> (2 / 3) ^ 4" using x0 hi by (simp add: power_mono)
  have f4: "inverse (fact 4) = (1 / 24 :: real)" by (simp add: fact_numeral)
  have "sin x \<ge> x - x ^ 3 / 6 - \<bar>x\<bar> ^ 4 / 24"
    using b unfolding s f4 by linarith
  then have "sin x \<ge> 7 / 12 - (2 / 3) ^ 3 / 6 - (2 / 3) ^ 4 / 24"
    using lo p3 p4 by linarith
  then have "sin x > 1 / 2" by (simp add: power_def)
  then show False by (simp add: x_def sin_30)
qed

lemma np_sqrt_power: "k < 64 \<Longrightarrow> np_sqrt (2 ^ k) = Inr (sqrt (2 ^ k))"
proof -
  assume "k < 64"
  then have "(2::nat) ^ k < 2 ^ 64" by (rule power_strict_increasing) simp
  then show ?thesis by (simp add: np_sqrt_def)
qed

lemma np_sqrt_too_large: "64 \<le> k \<Longrightarrow> np_sqrt (2 ^ k) = Inl TypeError"
proof -
  assume "64 \<le> k"
  then have "(2::nat) ^ 64 \<le> 2 ^ k" by (rule power_increasing) simp
  then have "\<not> (2::nat) ^ k < 2 ^ 64" by (simp only: not_less)
  then show ?thesis by (simp only: np_sqrt_def if_False)
qed

lemma np_round_pi: "np_round pi = 3"
proof -
  have f: "\<lfloor>pi\<rfloor> = 3" using pi_ge_3 pi_less_4 by linarith
  show ?thesis unfolding np_round_def Let_def f using pi_less_7_2 by simp
qed

text \<open>
  Claim C5. For every number \<open>k\<close> of search qubits below 64, the iteration count is
  computed, and it is the integer \<open>np.round\<close> gives for \<open>pi / 4 * sqrt (2 ^ k)\<close>: an
  integer nearest to that value (a tie going to the even neighbour). For four search
  qubits, the number every search of the application uses, it is 3. From 64 qubits on
  the computation raises an error and there is no count.
\<close>

theorem grover_iterations_rounds:
  "(k < 64 \<longrightarrow>
      (\<exists>n. grover_iterations k = Inr n
           \<and> n = np_round (pi / 4 * sqrt (2 ^ k))
           \<and> \<bar>of_int n - pi / 4 * sqrt (2 ^ k)\<bar> \<le> 1 / 2))
   \<and> grover_iterations 4 = Inr 3"
proof -
  have computed: "grover_iterations j = Inr (np_round (pi / 4 * sqrt (2 ^ j)))"
    if "j < 64" for j
    by (simp only: grover_iterations_def np_sqrt_power [OF that] sum.case)
  have general: "\<exists>n. grover_iterations k = Inr n
           \<and> n = np_round (pi / 4 * sqrt (2 ^ k))
           \<and> \<bar>of_int n - pi / 4 * sqrt (2 ^ k)\<bar> \<le> 1 / 2" if "k < 64"
    using computed [OF that] np_round_near [of "pi / 4 * sqrt (2 ^ k)"] by blast
  have e: "pi / 4 * sqrt (2 ^ 4) = pi" by (simp add: sqrt_16)
  have "(4::nat) < 64" by simp
  then have "grover_iterations 4 = Inr (np_round (pi / 4 * sqrt (2 ^ 4)))"
    by (rule computed)
  then have four: "grover_iterations 4 = Inr 3" by (simp only: e np_round_pi)
  show ?thesis using general four by blast
qed

theorem grover_iterations_rounds_witness:
  "(4::nat) < 64
   \<and> (\<exists>n. grover_iterations 4 = Inr n
          \<and> n = np_round (pi / 4 * sqrt (2 ^ 4))
          \<and> \<bar>of_int n - pi / 4 * sqrt (2 ^ 4)\<bar> \<le> 1 / 2)
   \<and> grover_iterations 4 = Inr 3"
proof -
  have "(4::nat) < 64" by simp
  with grover_iterations_rounds [of 4] show ?thesis by blast
qed

text \<open>
  From 64 search qubits on, the iteration count is not computed: the root of
  \<open>2 ^ k\<close> raises \<open>TypeError\<close>.
\<close>

theorem grover_iterations_fails_from_64:
  "64 \<le> k \<Longrightarrow> grover_iterations k = Inl TypeError"
  by (simp only: grover_iterations_def np_sqrt_too_large sum.case)

theorem grover_iterations_fails_from_64_witness:
  "(64::nat) \<le> 64 \<and> grover_iterations 64 = Inl TypeError"
  using grover_iterations_fails_from_64 [of 64] by simp

section \<open>Properties of the gates\<close>

lemma length_gates [simp]:
  "length (hadamard i v) = length v"
  "length (pauli_x i v) = length v"
  "length (pauli_z i v) = length v"
  "length (multi_controlled_x cs t v) = length v"
  "length (controlled_x c t v) = length v"
  "length (rotation_z \<theta> i v) = length v"
  by (simp_all add: hadamard_def pauli_x_def pauli_z_def multi_controlled_x_def
      controlled_x_def rotation_z_def)

lemma length_apply_op [simp]: "length (apply_op op v) = length v"
  by (cases op) simp_all

lemma length_run_ops [simp]: "length (run_ops ops v) = length v"
  unfolding run_ops_def by (induction ops arbitrary: v) simp_all

lemma run_ops_append: "run_ops (xs @ ys) v = run_ops ys (run_ops xs v)"
  by (simp add: run_ops_def)

lemma flip_bit_less: "i < n \<Longrightarrow> j < 2 ^ n \<Longrightarrow> flip_bit i j < (2::nat) ^ n"
proof -
  assume a: "i < n" "j < 2 ^ n"
  then have "take_bit n j = j" by (simp add: take_bit_nat_eq_self_iff)
  with a have "take_bit n (flip_bit i j) = flip_bit i j" by (simp add: take_bit_flip_bit_eq)
  then show ?thesis by (simp only: take_bit_nat_eq_self_iff)
qed

lemma set_bit_less: "i < n \<Longrightarrow> j < 2 ^ n \<Longrightarrow> set_bit i j < (2::nat) ^ n"
proof -
  assume a: "i < n" "j < 2 ^ n"
  then have "take_bit n j = j" by (simp add: take_bit_nat_eq_self_iff)
  with a have "take_bit n (set_bit i j) = set_bit i j" by (simp add: take_bit_set_bit_eq)
  then show ?thesis by (simp only: take_bit_nat_eq_self_iff)
qed

lemma unset_bit_less: "j < 2 ^ n \<Longrightarrow> unset_bit i j < (2::nat) ^ n"
proof -
  have "int (unset_bit i j) \<le> int j"
    using unset_bit_less_eq [of i "int j"] by (simp add: of_nat_unset_bit_eq)
  then show "j < 2 ^ n \<Longrightarrow> unset_bit i j < 2 ^ n" by simp
qed

lemma flip_bit_twice: "flip_bit i (flip_bit i j) = (j::nat)"
  by (rule bit_eqI) (auto simp: bit_flip_bit_iff)

lemma rotation_z_compose:
  "rotation_z \<theta>2 i (rotation_z \<theta>1 i v) = rotation_z (\<theta>1 + \<theta>2) i v"
proof (rule nth_equalityI)
  show "length (rotation_z \<theta>2 i (rotation_z \<theta>1 i v)) = length (rotation_z (\<theta>1 + \<theta>2) i v)"
    by simp
next
  fix j assume "j < length (rotation_z \<theta>2 i (rotation_z \<theta>1 i v))"
  then have j: "j < length v" by simp
  have e1: "\<theta>2 / 2 + \<theta>1 / 2 = (\<theta>1 + \<theta>2) / 2" by simp
  have e2: "- \<theta>2 / 2 + - \<theta>1 / 2 = - (\<theta>1 + \<theta>2) / 2" by simp
  have a: "cis (\<theta>2 / 2) * (cis (\<theta>1 / 2) * v ! j) = cis ((\<theta>1 + \<theta>2) / 2) * v ! j"
    unfolding mult.assoc [symmetric] cis_mult e1 ..
  have b: "cis (- \<theta>2 / 2) * (cis (- \<theta>1 / 2) * v ! j) = cis (- (\<theta>1 + \<theta>2) / 2) * v ! j"
    unfolding mult.assoc [symmetric] cis_mult e2 ..
  show "rotation_z \<theta>2 i (rotation_z \<theta>1 i v) ! j = rotation_z (\<theta>1 + \<theta>2) i v ! j"
    using j a b by (simp add: rotation_z_def)
qed

lemma mcx_involution:
  assumes "length v = 2 ^ n" "t < n" "list_all (\<lambda>c. c \<noteq> t) cs"
  shows "multi_controlled_x cs t (multi_controlled_x cs t v) = v"
proof (rule nth_equalityI)
  show "length (multi_controlled_x cs t (multi_controlled_x cs t v)) = length v" by simp
next
  fix j assume "j < length (multi_controlled_x cs t (multi_controlled_x cs t v))"
  then have j: "j < 2 ^ n" using assms by simp
  have fl: "flip_bit t j < 2 ^ n" using assms j by (simp add: flip_bit_less)
  have same: "list_all (bit (flip_bit t j)) cs = list_all (bit j) cs"
    using assms(3) by (induction cs) (auto simp: bit_flip_bit_iff)
  show "multi_controlled_x cs t (multi_controlled_x cs t v) ! j = v ! j"
    using j fl assms(1) by (simp add: multi_controlled_x_def same flip_bit_twice)
qed


text \<open>
  Claim C9. Applying a Z rotation by \<open>\<theta>1\<close> and then one by \<open>\<theta>2\<close> to the same qubit of
  any state vector gives exactly the state a single Z rotation by \<open>\<theta>1 + \<theta>2\<close> gives;
  in particular the circuit of \<open>multiple_rz_gates\<close> acts as the circuit with the single
  rotation by \<open>pi / 2 + pi / 3\<close>.
\<close>

theorem rotation_z_composition:
  "rotation_z \<theta>2 q (rotation_z \<theta>1 q v) = rotation_z (\<theta>1 + \<theta>2) q v
   \<and> run_ops [RZ \<theta>1 q, RZ \<theta>2 q] v = run_ops [RZ (\<theta>1 + \<theta>2) q] v
   \<and> run_ops multiple_rz_gates v
       = run_ops [H 0, RZ (pi / 2 + pi / 3) 0, H 0, Measure 0 0] v"
  by (simp add: run_ops_def multiple_rz_gates_def rotation_z_compose)

section \<open>The oracle is its own inverse\<close>

lemma length_permute_xor [simp]: "length (permute_xor m v) = length v"
  by (simp add: permute_xor_def)

lemma xor_less: "a < 2 ^ n \<Longrightarrow> b < 2 ^ n \<Longrightarrow> a XOR b < (2::nat) ^ n"
proof -
  assume "a < 2 ^ n" "b < 2 ^ n"
  then have "take_bit n a = a" "take_bit n b = b" by (simp_all add: take_bit_nat_eq_self_iff)
  then have "take_bit n (a XOR b) = a XOR b" by (simp add: take_bit_xor)
  then show ?thesis by (simp only: take_bit_nat_eq_self_iff)
qed

lemma pauli_x_xor: "pauli_x i v = permute_xor (2 ^ i) v"
  by (simp add: pauli_x_def permute_xor_def flip_bit_eq_xor)

lemma permute_xor_0: "permute_xor 0 v = v"
  by (rule nth_equalityI) (simp_all add: permute_xor_def)

lemma permute_xor_compose:
  assumes "length v = 2 ^ n" "a < 2 ^ n" "b < 2 ^ n"
  shows "permute_xor a (permute_xor b v) = permute_xor (a XOR b) v"
proof (rule nth_equalityI)
  show "length (permute_xor a (permute_xor b v)) = length (permute_xor (a XOR b) v)" by simp
next
  fix j assume "j < length (permute_xor a (permute_xor b v))"
  then have j: "j < 2 ^ n" using assms by simp
  then have ja: "j XOR a < 2 ^ n" using assms by (simp add: xor_less)
  show "permute_xor a (permute_xor b v) ! j = permute_xor (a XOR b) v ! j"
    using j ja assms(1) by (simp add: permute_xor_def xor.assoc)
qed

lemma permute_xor_twice:
  assumes "length v = 2 ^ n" "a < 2 ^ n"
  shows "permute_xor a (permute_xor a v) = v"
  using permute_xor_compose [OF assms(1) assms(2) assms(2)] by (simp add: permute_xor_0)

lemma run_x_layer:
  assumes "list_all (\<lambda>op. \<exists>i<n. op = X i) xs"
  shows "\<exists>m<2 ^ n. \<forall>v. length v = 2 ^ n \<longrightarrow> run_ops xs v = permute_xor m v"
  using assms
proof (induction xs)
  case Nil
  have "\<forall>v. length v = 2 ^ n \<longrightarrow> run_ops [] v = permute_xor 0 v"
    by (simp add: run_ops_def permute_xor_0)
  then show ?case by (intro exI [of _ 0]) simp
next
  case (Cons op xs)
  then obtain i where i: "i < n" "op = X i" by auto
  from Cons obtain m where m: "m < 2 ^ n"
      "\<forall>v. length v = 2 ^ n \<longrightarrow> run_ops xs v = permute_xor m v" by auto
  have p: "(2::nat) ^ i < 2 ^ n" using i by simp
  have "\<forall>v. length v = 2 ^ n \<longrightarrow> run_ops (op # xs) v = permute_xor (m XOR 2 ^ i) v"
  proof (intro allI impI)
    fix v :: state assume l: "length v = 2 ^ n"
    have "run_ops (op # xs) v = run_ops xs (pauli_x i v)" by (simp add: run_ops_def i)
    also have "\<dots> = permute_xor m (permute_xor (2 ^ i) v)" using m l by (simp add: pauli_x_xor)
    also have "\<dots> = permute_xor (m XOR 2 ^ i) v" by (rule permute_xor_compose [OF l m(1) p])
    finally show "run_ops (op # xs) v = permute_xor (m XOR 2 ^ i) v" .
  qed
  moreover have "m XOR 2 ^ i < 2 ^ n" using m(1) p by (rule xor_less)
  ultimately show ?case by blast
qed

lemma flip_zero_bits_shape:
  "flip_zero_bits k idx bits = Inr xs \<Longrightarrow> list_all (\<lambda>op. \<exists>i<k. op = X i) xs"
proof (induction bits arbitrary: idx xs)
  case Nil
  then show ?case by simp
next
  case (Cons b bits)
  then show ?case
    by (auto simp: qreg_def split: if_splits sum.splits)
qed

lemma create_oracle_shape:
  assumes "create_oracle k p = Inr ops"
  shows "\<exists>xs. ops = xs @ [MCX [0..<k] k] @ xs \<and> list_all (\<lambda>op. \<exists>i<k. op = X i) xs"
  using assms flip_zero_bits_shape
  by (fastforce simp: create_oracle_def split: sum.splits)

lemma run_ops_single: "run_ops [op] v = apply_op op v"
  by (simp add: run_ops_def)

lemma oracle_twice:
  assumes "create_oracle k p = Inr ops" "length v = 2 ^ (k + 1)"
  shows "run_ops (ops @ ops) v = v"
proof -
  define n where "n = k + 1"
  have lv: "length v = 2 ^ n" using assms(2) by (simp add: n_def)
  obtain xs where ops: "ops = xs @ [MCX [0..<k] k] @ xs"
    and xs: "list_all (\<lambda>op. \<exists>i<k. op = X i) xs"
    using create_oracle_shape [OF assms(1)] by blast
  have "list_all (\<lambda>op. \<exists>i<n. op = X i) xs"
    using xs unfolding n_def by (induction xs) auto
  then obtain m where m: "m < 2 ^ n"
      "\<And>w. length w = 2 ^ n \<Longrightarrow> run_ops xs w = permute_xor m w"
    using run_x_layer [of n xs] by blast
  have nc: "list_all (\<lambda>c. c \<noteq> k) [0..<k]" by (simp add: list_all_iff)
  have kn: "k < n" by (simp add: n_def)
  let ?M = "multi_controlled_x [0..<k] k"
  have MM: "\<And>w. length w = 2 ^ n \<Longrightarrow> ?M (?M w) = w"
    using kn nc by (rule mcx_involution [rotated])
  have PP: "\<And>w. length w = 2 ^ n \<Longrightarrow> permute_xor m (permute_xor m w) = w"
    using m(1) by (rule permute_xor_twice [rotated])
  have once: "run_ops ops w = permute_xor m (?M (permute_xor m w))"
    if "length w = 2 ^ n" for w
  proof -
    have "run_ops ops w = run_ops xs (run_ops [MCX [0..<k] k] (run_ops xs w))"
      unfolding ops by (simp only: run_ops_append)
    also have "\<dots> = run_ops xs (?M (permute_xor m w))"
      using that by (simp only: m(2) run_ops_single apply_op.simps)
    also have "\<dots> = permute_xor m (?M (permute_xor m w))"
      using that by (intro m(2)) simp
    finally show ?thesis .
  qed
  have l1: "length (run_ops ops v) = 2 ^ n" using lv by simp
  have "run_ops (ops @ ops) v = run_ops ops (run_ops ops v)" by (rule run_ops_append)
  also have "\<dots> = permute_xor m (?M (permute_xor m (run_ops ops v)))"
    by (rule once [OF l1])
  also have "\<dots> = permute_xor m (?M (permute_xor m (permute_xor m (?M (permute_xor m v)))))"
    by (simp only: once [OF lv])
  also have "permute_xor m (permute_xor m (?M (permute_xor m v))) = ?M (permute_xor m v)"
    using lv by (intro PP) simp
  also have "?M (?M (permute_xor m v)) = permute_xor m v"
    using lv by (intro MM) simp
  also have "permute_xor m (permute_xor m v) = v" by (rule PP [OF lv])
  finally show ?thesis .
qed


text \<open>
  Claim C4. For every bitstring pattern of the length \<open>k\<close> of the search register
  (\<open>k\<close> at least 1) and every state vector of the \<open>k\<close> search qubits and the ancilla,
  \<open>create_oracle\<close> builds a circuit, and applying that circuit twice gives the state
  vector back, amplitude by amplitude (so the global phase is 1).
\<close>

theorem oracle_self_inverse:
  "0 < k \<Longrightarrow> binary p \<Longrightarrow> length p = k \<Longrightarrow> length v = 2 ^ (k + 1) \<Longrightarrow>
   \<exists>ops. create_oracle k p = Inr ops \<and> run_ops (ops @ ops) v = v"
proof -
  assume p: "binary p" "length p = k" and v: "length v = 2 ^ (k + 1)"
  from p have "\<exists>ops. create_oracle k p = Inr ops"
    by (simp add: create_oracle_binary Let_def)
  then obtain ops where ops: "create_oracle k p = Inr ops" ..
  from ops v have "run_ops (ops @ ops) v = v" by (rule oracle_twice)
  with ops show ?thesis by blast
qed

theorem oracle_self_inverse_witness:
  "(0::nat) < 1 \<and> binary ''0'' \<and> length ''0'' = 1
   \<and> length [1, 2, 3, 4 :: complex] = 2 ^ (1 + 1)
   \<and> (\<exists>ops. create_oracle 1 ''0'' = Inr ops
        \<and> run_ops (ops @ ops) [1, 2, 3, 4] = [1, 2, 3, 4])"
  using oracle_self_inverse [of 1 "''0''" "[1, 2, 3, 4]"]
  by (simp add: binary_def)

section \<open>The gates preserve the norm\<close>

lemma norm2_nth: "norm2 v = (\<Sum>j<length v. (cmod (v ! j))\<^sup>2)"
proof -
  have "map (\<lambda>a. (cmod a)\<^sup>2) v = map (\<lambda>j. (cmod (v ! j))\<^sup>2) [0..<length v]"
    by (rule nth_equalityI) simp_all
  then have "norm2 v = sum_list (map (\<lambda>j. (cmod (v ! j))\<^sup>2) [0..<length v])"
    unfolding norm2_def by simp
  also have "\<dots> = (\<Sum>j<length v. (cmod (v ! j))\<^sup>2)"
    by (simp add: interv_sum_list_conv_sum_set_nat atLeast0LessThan)
  finally show ?thesis .
qed

lemma norm2_init: "norm2 (init_state n) = 1"
proof -
  have "norm2 (init_state n) = (\<Sum>j<(2::nat) ^ n. (cmod (if j = 0 then 1 else 0))\<^sup>2)"
    by (simp add: norm2_nth init_state_def)
  also have "\<dots> = (\<Sum>j<(2::nat) ^ n. if j = (0::nat) then 1 else (0::real))"
    by (rule sum.cong) auto
  also have "\<dots> = 1" by simp
  finally show ?thesis .
qed

lemma sum_involution:
  assumes "\<And>j. j < N \<Longrightarrow> p j < N" "\<And>j. j < N \<Longrightarrow> p (p j) = j"
  shows "(\<Sum>j<N. g (p j)) = (\<Sum>j<(N::nat). (g j :: real))"
  by (rule sum.reindex_bij_witness [of _ p p]) (auto simp: assms)

lemma norm2_pauli_x:
  assumes "length v = 2 ^ n" "i < n"
  shows "norm2 (pauli_x i v) = norm2 v"
proof -
  have "norm2 (pauli_x i v) = (\<Sum>j<2 ^ n. (cmod (v ! flip_bit i j))\<^sup>2)"
    using assms by (simp add: norm2_nth pauli_x_def)
  also have "\<dots> = (\<Sum>j<2 ^ n. (cmod (v ! j))\<^sup>2)"
    using assms by (intro sum_involution) (simp_all add: flip_bit_less flip_bit_twice)
  finally show ?thesis using assms by (simp add: norm2_nth)
qed

lemma norm2_mcx:
  assumes "length v = 2 ^ n" "t < n" "list_all (\<lambda>c. c \<noteq> t) cs"
  shows "norm2 (multi_controlled_x cs t v) = norm2 v"
proof -
  define p where "p j = (if list_all (bit j) cs then flip_bit t j else j)" for j :: nat
  have same: "list_all (bit (flip_bit t j)) cs = list_all (bit j) cs" for j :: nat
    using assms(3) by (induction cs) (auto simp: bit_flip_bit_iff)
  have "norm2 (multi_controlled_x cs t v) = (\<Sum>j<2 ^ n. (cmod (v ! p j))\<^sup>2)"
    using assms by (simp add: norm2_nth multi_controlled_x_def p_def if_distrib cong: if_cong)
  also have "\<dots> = (\<Sum>j<2 ^ n. (cmod (v ! j))\<^sup>2)"
    using assms by (intro sum_involution) (auto simp: p_def same flip_bit_less flip_bit_twice)
  finally show ?thesis using assms by (simp add: norm2_nth)
qed

lemma norm2_pauli_z: "norm2 (pauli_z i v) = norm2 v"
  by (simp add: norm2_nth pauli_z_def if_distrib cong: if_cong)

lemma norm2_rotation_z: "norm2 (rotation_z \<theta> i v) = norm2 v"
proof -
  have "norm2 (rotation_z \<theta> i v)
      = (\<Sum>j<length v. (cmod ((if bit j i then cis (\<theta> / 2) else cis (- \<theta> / 2)) * v ! j))\<^sup>2)"
    by (simp add: norm2_nth rotation_z_def)
  also have "\<dots> = (\<Sum>j<length v. (cmod (v ! j))\<^sup>2)"
    by (rule sum.cong) (simp_all add: norm_mult)
  finally show ?thesis by (simp add: norm2_nth)
qed

lemma sum_split_bit:
  assumes "i < n"
  shows "(\<Sum>j<(2::nat) ^ n. (F j :: real))
       = (\<Sum>j\<in>{j. j < 2 ^ n \<and> \<not> bit j i}. F j + F (flip_bit i j))"
proof -
  let ?A = "{j::nat. j < 2 ^ n \<and> \<not> bit j i}"
  let ?B = "{j::nat. j < 2 ^ n \<and> bit j i}"
  have un: "{..<(2::nat) ^ n} = ?A \<union> ?B" by auto
  have dj: "?A \<inter> ?B = {}" by auto
  have "(\<Sum>j<(2::nat) ^ n. F j) = sum F ?A + sum F ?B"
    unfolding un by (rule sum.union_disjoint) (use dj in auto)
  also have "sum F ?B = (\<Sum>j\<in>?A. F (flip_bit i j))"
    by (rule sum.reindex_bij_witness [of _ "flip_bit i" "flip_bit i"])
       (auto simp: flip_bit_twice flip_bit_less assms bit_flip_bit_iff)
  finally show ?thesis by (simp add: sum.distrib)
qed

lemma hadamard_pair:
  "(cmod ((a + b) / complex_of_real (sqrt 2)))\<^sup>2 + (cmod ((a - b) / complex_of_real (sqrt 2)))\<^sup>2
   = (cmod a)\<^sup>2 + (cmod b)\<^sup>2"
proof -
  have "(cmod (a + b))\<^sup>2 + (cmod (a - b))\<^sup>2 = 2 * ((cmod a)\<^sup>2 + (cmod b)\<^sup>2)"
    unfolding cmod_power2 by (simp add: power2_eq_square algebra_simps)
  then show ?thesis
    by (simp add: norm_divide power_divide flip: add_divide_distrib)
qed

lemma set_bit_eq_flip: "\<not> bit j i \<Longrightarrow> set_bit i j = flip_bit i (j::nat)"
  by (rule bit_eqI) (auto simp: bit_set_bit_iff bit_flip_bit_iff)

lemma unset_bit_eq_flip: "bit j i \<Longrightarrow> unset_bit i j = flip_bit i (j::nat)"
  by (rule bit_eqI) (auto simp: bit_unset_bit_iff bit_flip_bit_iff)

lemma norm2_hadamard:
  assumes "length v = 2 ^ n" "i < n"
  shows "norm2 (hadamard i v) = norm2 v"
proof -
  let ?A = "{j::nat. j < 2 ^ n \<and> \<not> bit j i}"
  let ?F = "\<lambda>j. (cmod (hadamard i v ! j))\<^sup>2"
  let ?G = "\<lambda>j. (cmod (v ! j))\<^sup>2"
  have pair: "?F j + ?F (flip_bit i j) = ?G j + ?G (flip_bit i j)" if "j \<in> ?A" for j
  proof -
    from that have j: "j < 2 ^ n" "\<not> bit j i" by auto
    have fj: "flip_bit i j < 2 ^ n" using j assms by (simp add: flip_bit_less)
    have bf: "bit (flip_bit i j) i" using j by (simp add: bit_flip_bit_iff)
    have h0: "hadamard i v ! j = (v ! j + v ! flip_bit i j) / complex_of_real (sqrt 2)"
      using j assms by (simp add: hadamard_def set_bit_eq_flip)
    have h1: "hadamard i v ! flip_bit i j = (v ! j - v ! flip_bit i j) / complex_of_real (sqrt 2)"
      using fj bf assms by (simp add: hadamard_def unset_bit_eq_flip flip_bit_twice)
    show ?thesis unfolding h0 h1 by (rule hadamard_pair)
  qed
  have "norm2 (hadamard i v) = (\<Sum>j<2 ^ n. ?F j)" using assms by (simp add: norm2_nth)
  also have "\<dots> = (\<Sum>j\<in>?A. ?F j + ?F (flip_bit i j))" by (rule sum_split_bit [OF assms(2)])
  also have "\<dots> = (\<Sum>j\<in>?A. ?G j + ?G (flip_bit i j))" by (rule sum.cong) (use pair in auto)
  also have "\<dots> = (\<Sum>j<2 ^ n. ?G j)" by (rule sum_split_bit [OF assms(2), symmetric])
  finally show ?thesis using assms by (simp add: norm2_nth)
qed

lemma norm2_apply_op:
  assumes "valid_op n op" "length v = 2 ^ n"
  shows "norm2 (apply_op op v) = norm2 v"
proof (cases op)
  case (CX c t)
  then show ?thesis
    using assms norm2_mcx [of v n t "[c]"] by (simp add: controlled_x_def)
next
  case (MCX cs t)
  have "list_all (\<lambda>c. c \<noteq> t) cs" using assms(1) MCX by (auto simp: list_all_iff)
  then show ?thesis using assms MCX by (simp add: norm2_mcx)
qed (use assms in \<open>simp_all add: norm2_hadamard norm2_pauli_x norm2_pauli_z norm2_rotation_z\<close>)

lemma norm2_run_ops:
  "list_all (valid_op n) ops \<Longrightarrow> length v = 2 ^ n \<Longrightarrow> norm2 (run_ops ops v) = norm2 v"
proof (induction ops arbitrary: v)
  case Nil
  then show ?case by (simp add: run_ops_def)
next
  case (Cons op ops)
  have "run_ops (op # ops) v = run_ops ops (apply_op op v)" by (simp add: run_ops_def)
  moreover have "norm2 (run_ops ops (apply_op op v)) = norm2 (apply_op op v)"
    using Cons by simp
  moreover have "norm2 (apply_op op v) = norm2 v"
    using Cons.prems by (intro norm2_apply_op) simp_all
  ultimately show ?case by simp
qed



text \<open>
  Claim C2. For every circuit whose operations are well formed for \<open>n\<close> qubits, the
  squared magnitudes of the amplitudes sum to exactly 1 after every prefix of the
  operations has been applied to the initial state, hence after each single gate and
  after the whole circuit.
\<close>

theorem normalised_after_every_gate:
  assumes "list_all (valid_op n) ops" "i \<le> length ops"
  shows "norm2 (run_ops (take i ops) (init_state n)) = 1"
proof -
  have "list_all (valid_op n) (take i ops)"
    using assms(1) by (auto simp: list_all_iff dest: in_set_takeD)
  then have "norm2 (run_ops (take i ops) (init_state n)) = norm2 (init_state n)"
    by (rule norm2_run_ops) (simp add: init_state_def)
  then show ?thesis by (simp add: norm2_init)
qed

theorem normalised_after_every_gate_witness:
  "list_all (valid_op 2) bell_state_phi_plus \<and> (2::nat) \<le> length bell_state_phi_plus
   \<and> norm2 (run_ops (take 2 bell_state_phi_plus) (init_state 2)) = 1"
  using normalised_after_every_gate [of 2 bell_state_phi_plus 2]
  by (simp add: bell_state_phi_plus_def)

section \<open>The distribution of the Grover run\<close>

lemma length_embed [simp]: "length (embed c w) = length w"
  by (simp add: embed_def)

lemma length_apply_int [simp]: "length (apply_int op w) = length w"
  by (cases op) (simp_all add: hadamard_int_def permute_int_def)

lemma hadamard_embed:
  assumes "length w = 2 ^ n" "i < n"
  shows "hadamard i (embed c w) = embed (c / complex_of_real (sqrt 2)) (hadamard_int i w)"
proof (rule nth_equalityI)
  show "length (hadamard i (embed c w))
      = length (embed (c / complex_of_real (sqrt 2)) (hadamard_int i w))"
    by (simp add: hadamard_int_def)
next
  fix j assume "j < length (hadamard i (embed c w))"
  then have j: "j < 2 ^ n" using assms by simp
  have s: "set_bit i j < 2 ^ n" and u: "unset_bit i j < 2 ^ n"
    using j assms by (simp_all add: set_bit_less unset_bit_less)
  show "hadamard i (embed c w) ! j
      = embed (c / complex_of_real (sqrt 2)) (hadamard_int i w) ! j"
    using j s u assms(1)
    by (simp add: hadamard_def hadamard_int_def embed_def algebra_simps
        add_divide_distrib diff_divide_distrib)
qed

lemma mcx_embed:
  assumes "length w = 2 ^ n" "t < n"
  shows "multi_controlled_x cs t (embed c w)
       = embed c (permute_int (\<lambda>j. if list_all (bit j) cs then flip_bit t j else j) w)"
proof (rule nth_equalityI)
  show "length (multi_controlled_x cs t (embed c w))
      = length (embed c (permute_int (\<lambda>j. if list_all (bit j) cs then flip_bit t j else j) w))"
    by (simp add: permute_int_def)
next
  fix j assume "j < length (multi_controlled_x cs t (embed c w))"
  then have j: "j < 2 ^ n" using assms by simp
  have f: "flip_bit t j < 2 ^ n" using j assms by (simp add: flip_bit_less)
  show "multi_controlled_x cs t (embed c w) ! j
      = embed c (permute_int (\<lambda>j. if list_all (bit j) cs then flip_bit t j else j) w) ! j"
    using j f assms(1) by (simp add: multi_controlled_x_def permute_int_def embed_def)
qed

lemma pauli_x_embed:
  assumes "length w = 2 ^ n" "i < n"
  shows "pauli_x i (embed c w) = embed c (permute_int (flip_bit i) w)"
proof (rule nth_equalityI)
  show "length (pauli_x i (embed c w)) = length (embed c (permute_int (flip_bit i) w))"
    by (simp add: permute_int_def)
next
  fix j assume "j < length (pauli_x i (embed c w))"
  then have j: "j < 2 ^ n" using assms by simp
  have f: "flip_bit i j < 2 ^ n" using j assms by (simp add: flip_bit_less)
  show "pauli_x i (embed c w) ! j = embed c (permute_int (flip_bit i) w) ! j"
    using j f assms(1) by (simp add: pauli_x_def permute_int_def embed_def)
qed

lemma pauli_z_embed:
  "pauli_z i (embed c w) = embed c (map (\<lambda>j. if bit j i then - (w ! j) else w ! j) [0..<length w])"
  by (rule nth_equalityI) (simp_all add: pauli_z_def embed_def)

lemma apply_op_embed:
  assumes "valid_op n op" "exact_op op" "length w = 2 ^ n"
  shows "apply_op op (embed c w)
       = embed (c / complex_of_real (sqrt 2) ^ hadamards [op]) (apply_int op w)"
proof (cases op)
  case (H i)
  then show ?thesis using assms by (simp add: hadamard_embed)
next
  case (X i)
  then show ?thesis using assms by (simp add: pauli_x_embed)
next
  case (Z i)
  then show ?thesis by (simp add: pauli_z_embed)
next
  case (CX c' t)
  then show ?thesis using assms by (simp add: controlled_x_def mcx_embed)
next
  case (MCX cs t)
  then show ?thesis using assms by (simp add: mcx_embed)
next
  case (RZ \<theta> i)
  then show ?thesis using assms by simp
qed simp_all

lemma hadamards_Cons: "hadamards (op # ops) = hadamards [op] + hadamards ops"
  by (cases op) simp_all

lemma run_ops_embed:
  "list_all (valid_op n) ops \<Longrightarrow> list_all exact_op ops \<Longrightarrow> length w = 2 ^ n \<Longrightarrow>
   run_ops ops (embed c w) = embed (c / complex_of_real (sqrt 2) ^ hadamards ops) (run_int ops w)"
proof (induction ops arbitrary: c w)
  case Nil
  then show ?case by (simp add: run_ops_def run_int_def)
next
  case (Cons op ops)
  have a: "apply_op op (embed c w)
         = embed (c / complex_of_real (sqrt 2) ^ hadamards [op]) (apply_int op w)"
    using Cons.prems by (intro apply_op_embed) simp_all
  have "run_ops (op # ops) (embed c w) = run_ops ops (apply_op op (embed c w))"
    by (simp add: run_ops_def)
  also have "\<dots> = embed (c / complex_of_real (sqrt 2) ^ hadamards [op]
                          / complex_of_real (sqrt 2) ^ hadamards ops)
                    (run_int ops (apply_int op w))"
    unfolding a using Cons.prems by (intro Cons.IH) simp_all
  also have "\<dots> = embed (c / complex_of_real (sqrt 2) ^ hadamards (op # ops))
                    (run_int (op # ops) w)"
    by (simp add: run_int_def hadamards_Cons [of op ops] power_add)
  finally show ?case .
qed

lemma init_embed: "init_state n = embed 1 (init_int n)"
  by (rule nth_equalityI) (simp_all add: init_state_def init_int_def embed_def)

lemma of_int_sum_list_map:
  "real_of_int (sum_list (map g xs)) = sum_list (map (\<lambda>j. real_of_int (g j)) xs)"
  by (induction xs) simp_all

lemma outcome_prob_embed:
  "outcome_prob m ops (embed c w) s = (cmod c)\<^sup>2 * of_int (outcome_weight m ops w s)"
proof -
  let ?f = "\<lambda>j. if readout m ops j = s then (cmod (embed c w ! j))\<^sup>2 else 0"
  let ?g = "\<lambda>j. if readout m ops j = s then (w ! j)\<^sup>2 else 0"
  have el: "?f j = (cmod c)\<^sup>2 * of_int (?g j)" if "j \<in> set [0..<length w]" for j
    using that by (simp add: embed_def norm_mult power_mult_distrib)
  have "outcome_prob m ops (embed c w) s = sum_list (map ?f [0..<length w])"
    by (simp add: outcome_prob_def)
  also have "\<dots> = sum_list (map (\<lambda>j. (cmod c)\<^sup>2 * of_int (?g j)) [0..<length w])"
    using el by (intro arg_cong [where f = sum_list] map_cong) auto
  also have "\<dots> = (cmod c)\<^sup>2 * sum_list (map (\<lambda>j. of_int (?g j)) [0..<length w])"
    by (rule sum_list_const_mult)
  also have "sum_list (map (\<lambda>j. real_of_int (?g j)) [0..<length w])
           = of_int (sum_list (map ?g [0..<length w]))"
    by (rule of_int_sum_list_map [symmetric])
  finally show ?thesis by (simp add: outcome_weight_def)
qed

lemma cmod_scale: "(cmod (1 / complex_of_real (sqrt 2) ^ k))\<^sup>2 = 1 / 2 ^ k"
proof -
  have "((sqrt 2) ^ k)\<^sup>2 = ((sqrt 2)\<^sup>2) ^ k"
    by (simp only: power_mult [symmetric] mult.commute)
  then have e: "((sqrt 2) ^ k)\<^sup>2 = 2 ^ k" by simp
  have "(cmod (1 / complex_of_real (sqrt 2) ^ k))\<^sup>2 = 1 / ((sqrt 2) ^ k)\<^sup>2"
    by (simp add: norm_divide norm_power power_divide del: power_mult)
  then show ?thesis by (simp only: e)
qed



text \<open>
  Claim C1, evaluated on the code. For four search qubits, the target \<open>1011\<close> and three
  iterations, \<open>run_grover_manual\<close> builds a circuit that the simulator accepts, and in
  its final state the bitstring \<open>1101\<close>, the target read backwards, has the probability
  63001/65536 while the target \<open>1011\<close> has the probability 169/65536, which is below
  1/16. The oracle takes character \<open>idx\<close> of the pattern for qubit \<open>idx\<close>, and the
  bitstring that is read out shows qubit 0 last.
\<close>

theorem grover_1011_distribution:
  "\<exists>ops v. run_grover_manual_circuit 4 ''1011'' 3 = Inr ops \<and> simulate 5 ops = Inr v
     \<and> outcome_prob 4 ops v ''1101'' = 63001 / 65536
     \<and> outcome_prob 4 ops v ''1011'' = 169 / 65536"
proof -
  let ?G = "[X 4, H 4, H 0, H 1, H 2, H 3, X 1, MCX [0, 1, 2, 3] 4, X 1, H 0, H 1,
      H 2, H 3, X 0, X 1, X 2, X 3, H 3, MCX [0, 1, 2] 3, H 3, X 0, X 1,
      X 2, X 3, H 0, H 1, H 2, H 3, X 1, MCX [0, 1, 2, 3] 4, X 1, H 0, H 1,
      H 2, H 3, X 0, X 1, X 2, X 3, H 3, MCX [0, 1, 2] 3, H 3, X 0, X 1,
      X 2, X 3, H 0, H 1, H 2, H 3, X 1, MCX [0, 1, 2, 3] 4, X 1, H 0, H 1,
      H 2, H 3, X 0, X 1, X 2, X 3, H 3, MCX [0, 1, 2] 3, H 3, X 0, X 1,
      X 2, X 3, H 0, H 1, H 2, H 3, Measure 0 0, Measure 1 1, Measure 2 2,
      Measure 3 3]"
  let ?W = "[6656, 6656, 6656, 6656, 6656, 6656, 6656, 6656, 6656, 6656, 6656, 6656,
      6656, - 128512, 6656, 6656, - 6656, - 6656, - 6656, - 6656, - 6656, - 6656,
      - 6656, - 6656, - 6656, - 6656, - 6656, - 6656, - 6656, 128512, - 6656, - 6656 :: int]"
  let ?c = "1 / complex_of_real (sqrt 2) ^ 35"
  have circ: "run_grover_manual_circuit 4 ''1011'' 3 = Inr ?G" by code_simp
  have valid: "list_all (valid_op 5) ?G" by code_simp
  have exact: "list_all exact_op ?G" by code_simp
  have hs: "hadamards ?G = 35" by code_simp
  have run: "run_int ?G (init_int 5) = ?W" by code_simp
  have len: "length (init_int 5) = 2 ^ 5" by (simp add: init_int_def)
  have "run_ops ?G (init_state 5) = embed ?c ?W"
    unfolding init_embed run_ops_embed [OF valid exact len] hs run ..
  then have sim: "simulate 5 ?G = Inr (embed ?c ?W)"
    using valid by (simp only: simulate_def if_True)
  have w1: "outcome_weight 4 ?G ?W ''1101'' = 33030668288" by code_simp
  have w2: "outcome_weight 4 ?G ?W ''1011'' = 88604672" by code_simp
  have p1: "outcome_prob 4 ?G (embed ?c ?W) ''1101'' = 63001 / 65536"
    unfolding outcome_prob_embed cmod_scale w1 by simp
  have p2: "outcome_prob 4 ?G (embed ?c ?W) ''1011'' = 169 / 65536"
    unfolding outcome_prob_embed cmod_scale w2 by simp
  show ?thesis using circ sim p1 p2 by blast
qed

section \<open>Two Hadamards, and the Bell pair\<close>

lemma hadamard_twice:
  assumes "length v = 2 ^ n" "i < n"
  shows "hadamard i (hadamard i v) = v"
proof (rule nth_equalityI)
  show "length (hadamard i (hadamard i v)) = length v" by simp
next
  fix j assume "j < length (hadamard i (hadamard i v))"
  then have j: "j < 2 ^ n" using assms by simp
  have s2: "complex_of_real (sqrt 2) * complex_of_real (sqrt 2) = 2"
    by (simp flip: of_real_mult)
  have half: "(a + b) / complex_of_real (sqrt 2) / complex_of_real (sqrt 2) = (a + b) / 2" for a b
    by (simp add: s2)
  show "hadamard i (hadamard i v) ! j = v ! j"
  proof (cases "bit j i")
    case False
    let ?s = "set_bit i j"
    have s: "?s < 2 ^ n" using j assms by (simp add: set_bit_less)
    have bs: "bit ?s i" by (simp add: bit_set_bit_iff)
    have us: "unset_bit i ?s = j" using False
      by (intro bit_eqI) (auto simp: bit_unset_bit_iff bit_set_bit_iff)
    have "hadamard i (hadamard i v) ! j
        = ((v ! j + v ! ?s) / complex_of_real (sqrt 2)
           + (v ! j - v ! ?s) / complex_of_real (sqrt 2)) / complex_of_real (sqrt 2)"
      using j s bs us False assms(1) by (simp add: hadamard_def)
    also have "\<dots> = (v ! j + v ! j) / complex_of_real (sqrt 2) / complex_of_real (sqrt 2)"
      by (simp flip: add_divide_distrib)
    also have "\<dots> = v ! j" unfolding half by simp
    finally show ?thesis .
  next
    case True
    let ?u = "unset_bit i j"
    have u: "?u < 2 ^ n" using j by (simp add: unset_bit_less)
    have bu: "\<not> bit ?u i" by (simp add: bit_unset_bit_iff)
    have su: "set_bit i ?u = j" using True
      by (intro bit_eqI) (auto simp: bit_unset_bit_iff bit_set_bit_iff)
    have "hadamard i (hadamard i v) ! j
        = ((v ! ?u + v ! j) / complex_of_real (sqrt 2)
           - (v ! ?u - v ! j) / complex_of_real (sqrt 2)) / complex_of_real (sqrt 2)"
      using j u bu su True assms(1) by (simp add: hadamard_def)
    also have "\<dots> = (v ! j + v ! j) / complex_of_real (sqrt 2) / complex_of_real (sqrt 2)"
      by (simp flip: diff_divide_distrib)
    also have "\<dots> = v ! j" unfolding half by simp
    finally show ?thesis .
  qed
qed

text \<open>
  A Hadamard applied twice to a qubit of any state vector gives the state vector back,
  as in the circuits of Lab 3.
\<close>

theorem hadamard_twice_identity:
  "length v = 2 ^ n \<Longrightarrow> i < n \<Longrightarrow> hadamard i (hadamard i v) = v"
  by (rule hadamard_twice)

theorem hadamard_twice_identity_witness:
  "length [1, 0 :: complex] = 2 ^ 1 \<and> (0::nat) < 1
   \<and> hadamard 0 (hadamard 0 [1, 0]) = [1, 0]"
  using hadamard_twice_identity [of "[1, 0]" 1 0] by simp

text \<open>
  The circuit of \<open>bell_state_phi_plus\<close> is accepted by the simulator, and in its final
  state the bitstrings \<open>00\<close> and \<open>11\<close> have the probability 1/2 each and \<open>01\<close> and
  \<open>10\<close> the probability 0.
\<close>

theorem bell_pair_distribution:
  "\<exists>v. simulate 2 bell_state_phi_plus = Inr v
     \<and> outcome_prob 2 bell_state_phi_plus v ''00'' = 1 / 2
     \<and> outcome_prob 2 bell_state_phi_plus v ''11'' = 1 / 2
     \<and> outcome_prob 2 bell_state_phi_plus v ''01'' = 0
     \<and> outcome_prob 2 bell_state_phi_plus v ''10'' = 0"
proof -
  let ?B = "[H 0, CX 0 1, Measure 0 0, Measure 1 1]"
  let ?W = "[1, 0, 0, 1 :: int]"
  let ?c = "1 / complex_of_real (sqrt 2) ^ 1"
  have valid: "list_all (valid_op 2) ?B" by code_simp
  have exact: "list_all exact_op ?B" by code_simp
  have hs: "hadamards ?B = 1" by code_simp
  have run: "run_int ?B (init_int 2) = ?W" by code_simp
  have len: "length (init_int 2) = 2 ^ 2" by (simp add: init_int_def)
  have "run_ops ?B (init_state 2) = embed ?c ?W"
    unfolding init_embed run_ops_embed [OF valid exact len] hs run ..
  then have sim: "simulate 2 ?B = Inr (embed ?c ?W)"
    using valid by (simp only: simulate_def if_True)
  have w: "outcome_weight 2 ?B ?W ''00'' = 1" "outcome_weight 2 ?B ?W ''11'' = 1"
    "outcome_weight 2 ?B ?W ''01'' = 0" "outcome_weight 2 ?B ?W ''10'' = 0"
    by code_simp+
  have p: "outcome_prob 2 ?B (embed ?c ?W) ''00'' = 1 / 2"
    "outcome_prob 2 ?B (embed ?c ?W) ''11'' = 1 / 2"
    "outcome_prob 2 ?B (embed ?c ?W) ''01'' = 0"
    "outcome_prob 2 ?B (embed ?c ?W) ''10'' = 0"
    unfolding outcome_prob_embed cmod_scale w by simp_all
  show ?thesis unfolding bell_state_phi_plus_def using sim p by blast
qed

end
